theory Spec2Isabelle
  imports Main
begin

unbundle bit_operations_syntax

section \<open>The epub text extractor of smashwords-downloader\<close>

text \<open>
  A shallow embedding of \<^verbatim>\<open>cmd/smashwords-downloader/epubParse.go\<close>: the walk over the
  tokens of one chapter (\<^verbatim>\<open>Parse\<close>), the handlers of text and start tags, the style
  resolver and the cell buffer with its word wrap (\<^verbatim>\<open>AppendText\<close>, \<^verbatim>\<open>SetCell\<close>).
  The copy of the same functions in \<^verbatim>\<open>main.go\<close> (lower-case names) has the same
  statements; its additional lines in \<^verbatim>\<open>appendText\<close> are comments and an \<^verbatim>\<open>if\<close> with an
  empty body.

  Go's \<^verbatim>\<open>int\<close> is modelled by \<^typ>\<open>int\<close>: rows and columns only grow by one or two for
  each token or character, so the 64-bit range is not left by any input that fits in
  memory. A run-time panic of the Go program is a value of type \<open>panic\<close>.
\<close>

subsection \<open>Strings\<close>

text \<open>
  A Go string is modelled by the sequence of its Unicode code points (the string is
  taken to be valid UTF-8); \<open>str\<close> turns a literal into this form.
\<close>

type_synonym rune = nat
type_synonym gostring = "rune list"

definition str :: "string \<Rightarrow> gostring" where
  "str s = map of_char s"

text \<open>\<^verbatim>\<open>utf8.RuneLen\<close>: the number of bytes of a code point in UTF-8.\<close>

definition RuneLen :: "rune \<Rightarrow> nat" where
  "RuneLen r = (if r < 128 then 1 else if r < 2048 then 2 else if r < 65536 then 3 else 4)"

text \<open>The byte length \<^verbatim>\<open>len(s)\<close> of a string.\<close>

definition byteLen :: "gostring \<Rightarrow> nat" where
  "byteLen s = sum_list (map RuneLen s)"

text \<open>\<^verbatim>\<open>isSpace\<close> of package bufio, which \<^verbatim>\<open>bufio.ScanWords\<close> splits at.\<close>

definition isSpace :: "rune \<Rightarrow> bool" where
  "isSpace r =
     (if r \<le> 255
      then r = 32 \<or> r = 9 \<or> r = 10 \<or> r = 11 \<or> r = 12 \<or> r = 13 \<or> r = 133 \<or> r = 160
      else (8192 \<le> r \<and> r \<le> 8202) \<or>
           r = 5760 \<or> r = 8232 \<or> r = 8233 \<or> r = 8239 \<or> r = 8287 \<or> r = 12288)"

text \<open>
  The runs of non-space code points of a string, in order, each with the space that
  ends it (\<open>None\<close> for a last word that the end of the string ends). The second
  argument is the word read so far.
\<close>

fun splitWords :: "gostring \<Rightarrow> gostring \<Rightarrow> (gostring \<times> rune option) list" where
  "splitWords [] cur = (if cur = [] then [] else [(cur, None)])"
| "splitWords (r # rs) cur =
     (if isSpace r
      then (if cur = [] then splitWords rs [] else (cur, Some r) # splitWords rs [])
      else splitWords rs (cur @ [r]))"

text \<open>
  \<^verbatim>\<open>bufio.MaxScanTokenSize\<close>, the largest buffer of a \<^verbatim>\<open>bufio.Scanner\<close>. The scanner
  returns a word once the word and the space after it lie in the buffer, or the word
  alone with at least one byte of the buffer left to see the end of the input. For a
  longer word \<^verbatim>\<open>Scan\<close> returns false (\<^verbatim>\<open>ErrTooLong\<close>) and the loop of \<^verbatim>\<open>AppendText\<close>, which
  does not look at the scanner's error, ends there.
\<close>

definition MaxScanTokenSize :: nat where
  "MaxScanTokenSize = 65536"

definition fitsScanner :: "gostring \<times> rune option \<Rightarrow> bool" where
  "fitsScanner wd =
     (byteLen (fst wd) + (case snd wd of None \<Rightarrow> 1 | Some r \<Rightarrow> RuneLen r) \<le> MaxScanTokenSize)"

text \<open>
  The words that the loop \<^verbatim>\<open>for scanner.Scan() { ... scanner.Text() ... }\<close> sees, for a
  scanner over the string with \<^verbatim>\<open>scanner.Split(bufio.ScanWords)\<close>.
\<close>

definition ScanWords :: "gostring \<Rightarrow> gostring list" where
  "ScanWords s = map fst (takeWhile fitsScanner (splitWords s []))"

subsection \<open>Atoms, tokens, cells\<close>

text \<open>
  The atoms (package \<^verbatim>\<open>golang.org/x/net/html/atom\<close>) that the code names, and
  \<open>atom_Other\<close> for every other atom and for 0, the atom of an unknown name; the code
  compares atoms only with the named ones.
\<close>

datatype Atom =
    atom_Alt | atom_B | atom_Br | atom_Div | atom_Em
  | atom_H1 | atom_H2 | atom_H3 | atom_H4 | atom_H5 | atom_H6
  | atom_Hr | atom_I | atom_Img | atom_P | atom_Src | atom_Strong
  | atom_Style | atom_Title | atom_Tr | atom_Other

text \<open>\<^verbatim>\<open>atom.Lookup\<close> on the names of the atoms above.\<close>

definition Lookup :: "gostring \<Rightarrow> Atom" where
  "Lookup k =
     (if k = str ''alt'' then atom_Alt else if k = str ''b'' then atom_B
      else if k = str ''br'' then atom_Br else if k = str ''div'' then atom_Div
      else if k = str ''em'' then atom_Em else if k = str ''h1'' then atom_H1
      else if k = str ''h2'' then atom_H2 else if k = str ''h3'' then atom_H3
      else if k = str ''h4'' then atom_H4 else if k = str ''h5'' then atom_H5
      else if k = str ''h6'' then atom_H6 else if k = str ''hr'' then atom_Hr
      else if k = str ''i'' then atom_I else if k = str ''img'' then atom_Img
      else if k = str ''p'' then atom_P else if k = str ''src'' then atom_Src
      else if k = str ''strong'' then atom_Strong else if k = str ''style'' then atom_Style
      else if k = str ''title'' then atom_Title else if k = str ''tr'' then atom_Tr
      else atom_Other)"

text \<open>\<^verbatim>\<open>html.TokenType\<close>, \<^verbatim>\<open>html.Attribute\<close> and \<^verbatim>\<open>html.Token\<close>.\<close>

datatype TokenType =
    ErrorToken | TextToken | StartTagToken | EndTagToken
  | SelfClosingTagToken | CommentToken | DoctypeToken

record html_Attribute =
  Key :: gostring
  Val :: gostring

record Token =
  Type :: TokenType
  DataAtom :: Atom
  Data :: gostring
  Attr :: "html_Attribute list"

text \<open>
  The error of the tokenizer once it has stopped: \<^verbatim>\<open>io.EOF\<close> at the end of the input,
  or any other error (of the reader, or \<^verbatim>\<open>html.ErrBufferExceeded\<close>), named by its message.
\<close>

datatype error = io_EOF | OtherError string

text \<open>
  \<^verbatim>\<open>termbox.Attribute\<close> is an unsigned integer type; the code only combines small
  constants with \<^verbatim>\<open>|\<close>, which does not depend on the width. The constants have the
  values of package \<^verbatim>\<open>github.com/nsf/termbox-go\<close>.
\<close>

type_synonym termbox_Attribute = nat

definition ColorDefault :: termbox_Attribute where "ColorDefault = 0"
definition ColorRed :: termbox_Attribute where "ColorRed = 2"
definition ColorYellow :: termbox_Attribute where "ColorYellow = 4"
definition ColorBlue :: termbox_Attribute where "ColorBlue = 5"
definition ColorMagenta :: termbox_Attribute where "ColorMagenta = 6"
definition ColorCyan :: termbox_Attribute where "ColorCyan = 7"
definition AttrBold :: termbox_Attribute where "AttrBold = 512"

record Cell =
  Ch :: rune
  Fg :: termbox_Attribute
  Bg :: termbox_Attribute

text \<open>The zero value of \<^verbatim>\<open>termbox.Cell\<close>, which \<^verbatim>\<open>make\<close> fills a new slice with.\<close>

definition zeroCell :: Cell where
  "zeroCell = \<lparr>Ch = 0, Fg = 0, Bg = 0\<rparr>"

subsection \<open>The cell buffer\<close>

text \<open>
  The struct \<^verbatim>\<open>Cellbuf\<close>. The last field is not in the struct: it lists the arguments
  \<open>(x, y, ch)\<close> of the calls of \<^verbatim>\<open>SetCell\<close> so far, oldest first, so that a property of
  the calls can be stated. No operation reads it.
\<close>

record Cellbuf =
  cells :: "Cell list"
  width :: int
  lmargin :: int
  col :: int
  row :: int
  space :: bool
  fg :: termbox_Attribute
  bg :: termbox_Attribute
  calls :: "(int \<times> int \<times> rune) list"

datatype panic = SliceBoundsOutOfRange | IndexOutOfRange | NegativeRepeatCount

text \<open>
  The loop of \<^verbatim>\<open>SetCell\<close>:
  \<^verbatim>\<open>for y*c.width+x >= len(c.cells) { c.cells = append(c.cells, make([]termbox.Cell, 1024)...) }\<close>
  with \<open>i\<close> for \<^verbatim>\<open>y*c.width+x\<close>.
\<close>

function grow :: "Cell list \<Rightarrow> int \<Rightarrow> Cell list" where
  "grow cs i = (if i \<ge> int (length cs) then grow (cs @ replicate 1024 zeroCell) i else cs)"
  by pat_completeness auto
termination
  by (relation "measure (\<lambda>(cs, i). nat (i + 1 - int (length cs)))") auto

declare grow.simps [simp del]

text \<open>
  \<^verbatim>\<open>SetCell\<close>. The loop does not run for a negative index, and the assignment
  \<^verbatim>\<open>c.cells[y*c.width+x] = ...\<close> then panics.
\<close>

definition SetCell ::
  "Cellbuf \<Rightarrow> int \<Rightarrow> int \<Rightarrow> rune \<Rightarrow> termbox_Attribute \<Rightarrow> termbox_Attribute \<Rightarrow> panic + Cellbuf" where
  "SetCell c x y ch f b =
     (let i = y * width c + x;
          cs = grow (cells c) i
      in if i < 0 then Inl IndexOutOfRange
         else Inr (c\<lparr>cells := cs[nat i := \<lparr>Ch = ch, Fg = f, Bg = b\<rparr>],
                     calls := calls c @ [(x, y, ch)]\<rparr>))"

text \<open>The inner loop of \<^verbatim>\<open>AppendText\<close>: \<^verbatim>\<open>for _, r := range word { c.SetCell(...); c.col++ }\<close>.\<close>

fun AppendText_runes :: "Cellbuf \<Rightarrow> gostring \<Rightarrow> panic + Cellbuf" where
  "AppendText_runes c [] = Inr c"
| "AppendText_runes c (r # rs) =
     (case SetCell c (col c) (row c) r (fg c) (bg c) of
        Inl e \<Rightarrow> Inl e
      | Inr c' \<Rightarrow> AppendText_runes (c'\<lparr>col := col c' + 1\<rparr>) rs)"

text \<open>The body of the loop \<^verbatim>\<open>for scanner.Scan()\<close> of \<^verbatim>\<open>AppendText\<close>, for one word.\<close>

definition AppendText_word :: "Cellbuf \<Rightarrow> gostring \<Rightarrow> panic + Cellbuf" where
  "AppendText_word c word =
     (let c1 = (if col c \<noteq> lmargin c \<and> space c then c\<lparr>col := col c + 1\<rparr> else c);
          c2 = (if int (length word) > width c1 - col c1
                then c1\<lparr>row := row c1 + 1, col := lmargin c1\<rparr> else c1)
      in AppendText_runes c2 word)"

fun AppendText_words :: "Cellbuf \<Rightarrow> gostring list \<Rightarrow> panic + Cellbuf" where
  "AppendText_words c [] = Inr c"
| "AppendText_words c (w # ws) =
     (case AppendText_word c w of
        Inl e \<Rightarrow> Inl e
      | Inr c' \<Rightarrow> AppendText_words c' ws)"

definition AppendText :: "Cellbuf \<Rightarrow> gostring \<Rightarrow> panic + Cellbuf" where
  "AppendText c s =
     (if byteLen s \<le> 0 then Inr c
      else AppendText_words (if col c < lmargin c then c\<lparr>col := lmargin c\<rparr> else c)
             (ScanWords s))"

text \<open>\<^verbatim>\<open>Style\<close>: the loop body, one tag of the stack, and the method.\<close>

definition Style_tag :: "termbox_Attribute \<Rightarrow> Atom \<Rightarrow> termbox_Attribute" where
  "Style_tag f tag =
     (if tag = atom_B \<or> tag = atom_Strong \<or> tag = atom_Em then f OR AttrBold
      else if tag = atom_I then f OR ColorYellow
      else if tag = atom_Title then f OR ColorRed
      else if tag = atom_H1 then f OR ColorMagenta
      else if tag = atom_H2 then f OR ColorBlue
      else if tag = atom_H3 \<or> tag = atom_H4 \<or> tag = atom_H5 \<or> tag = atom_H6
      then f OR ColorCyan
      else f)"

definition Style :: "Cellbuf \<Rightarrow> Atom list \<Rightarrow> Cellbuf" where
  "Style c tags = c\<lparr>fg := foldl Style_tag ColorDefault tags\<rparr>"

subsection \<open>The parser\<close>

text \<open>
  \<^verbatim>\<open>epub.Item\<close> (of the goreader library), and the struct \<^verbatim>\<open>Parser\<close>. The field
  \<^verbatim>\<open>tokenizer\<close> is the argument of \<open>Parse\<close> below; \<^verbatim>\<open>sb\<close>, a \<^verbatim>\<open>strings.Builder\<close>, is the
  text written to it so far.
\<close>

record epub_Item =
  HREF :: gostring

record Parser =
  tagStack :: "Atom list"
  doc :: Cellbuf
  items :: "epub_Item list"
  sb :: gostring

text \<open>\<^verbatim>\<open>HandleText\<close>.\<close>

definition HandleText :: "Parser \<Rightarrow> Token \<Rightarrow> panic + Parser" where
  "HandleText p token =
     (if length (tagStack p) > 0 \<and> tagStack p ! (length (tagStack p) - 1) = atom_Style
      then Inr p
      else (case AppendText (Style (doc p) (tagStack p)) (Data token) of
              Inl e \<Rightarrow> Inl e
            | Inr d \<Rightarrow> Inr (p\<lparr>doc := d, sb := sb p @ Data token\<rparr>)))"

text \<open>
  The loop over the attributes of an \<^verbatim>\<open>img\<close> tag in \<^verbatim>\<open>HandleStartTag\<close>. The loop over
  \<^verbatim>\<open>p.items\<close> for a \<^verbatim>\<open>src\<close> attribute only compares and breaks; it changes nothing.
\<close>

fun HandleStartTag_img :: "Parser \<Rightarrow> html_Attribute list \<Rightarrow> panic + Parser" where
  "HandleStartTag_img p [] = Inr p"
| "HandleStartTag_img p (a # as) =
     (if Lookup (Key a) = atom_Alt
      then (case AppendText (doc p) (str ''Alt text: '' @ Val a) of
              Inl e \<Rightarrow> Inl e
            | Inr d \<Rightarrow>
                HandleStartTag_img (p\<lparr>doc := d\<lparr>row := row d + 1, col := lmargin d\<rparr>\<rparr>) as)
      else HandleStartTag_img p as)"

text \<open>
  \<^verbatim>\<open>HandleStartTag\<close>. \<^verbatim>\<open>strings.Repeat\<close> panics for a negative count.
\<close>

definition HandleStartTag :: "Parser \<Rightarrow> Token \<Rightarrow> panic + Parser" where
  "HandleStartTag p token =
     (let a = DataAtom token; d = doc p in
      if a = atom_Img then HandleStartTag_img p (Attr token)
      else if a = atom_Br then Inr (p\<lparr>doc := d\<lparr>row := row d + 1, col := lmargin d\<rparr>\<rparr>)
      else if a = atom_H1 \<or> a = atom_H2 \<or> a = atom_H3 \<or> a = atom_H4 \<or> a = atom_H5
              \<or> a = atom_H6 \<or> a = atom_Title \<or> a = atom_Div \<or> a = atom_Tr
      then Inr (p\<lparr>doc := d\<lparr>row := row d + 2, col := lmargin d\<rparr>\<rparr>)
      else if a = atom_P
      then Inr (p\<lparr>doc := d\<lparr>row := row d + 2, col := lmargin d + 2\<rparr>\<rparr>)
      else if a = atom_Hr
      then (if width d < 0 then Inl NegativeRepeatCount
            else (case AppendText (d\<lparr>row := row d + 1, col := 0\<rparr>)
                         (replicate (nat (width d)) (of_char CHR ''-'')) of
                    Inl e \<Rightarrow> Inl e
                  | Inr d' \<Rightarrow> Inr (p\<lparr>doc := d'\<rparr>)))
      else Inr p)"

text \<open>
  \<^verbatim>\<open>Parse\<close>. The tokenizer is the list of the tokens it returns and the error \<open>err\<close> it
  ends with: at the end of the list, and at a token of type \<^verbatim>\<open>ErrorToken\<close>,
  \<^verbatim>\<open>p.tokenizer.Err()\<close> is \<open>err\<close>. The result is the parser after the walk and the error
  returned (\<open>None\<close> for \<^verbatim>\<open>nil\<close>), or the panic that ended the walk. Popping the empty
  stack, \<^verbatim>\<open>p.tagStack[:len(p.tagStack)-1]\<close> with length 0, is the slice expression
  \<^verbatim>\<open>p.tagStack[:-1]\<close>, which panics.
\<close>

fun Parse :: "Parser \<Rightarrow> Token list \<Rightarrow> error \<Rightarrow> panic + (Parser \<times> error option)" where
  "Parse p [] err = Inr (p, if err = io_EOF then None else Some err)"
| "Parse p (token # rest) err =
     (case Type token of
        ErrorToken \<Rightarrow> Inr (p, if err = io_EOF then None else Some err)
      | StartTagToken \<Rightarrow>
          (case HandleStartTag (p\<lparr>tagStack := tagStack p @ [DataAtom token]\<rparr>) token of
             Inl e \<Rightarrow> Inl e
           | Inr p' \<Rightarrow> Parse p' rest err)
      | SelfClosingTagToken \<Rightarrow>
          (case HandleStartTag p token of
             Inl e \<Rightarrow> Inl e
           | Inr p' \<Rightarrow> Parse p' rest err)
      | TextToken \<Rightarrow>
          (case HandleText p token of
             Inl e \<Rightarrow> Inl e
           | Inr p' \<Rightarrow> Parse p' rest err)
      | EndTagToken \<Rightarrow>
          (if length (tagStack p) = 0 then Inl SliceBoundsOutOfRange
           else Parse (p\<lparr>tagStack := take (length (tagStack p) - 1) (tagStack p)\<rparr>) rest err)
      | CommentToken \<Rightarrow> Parse p rest err
      | DoctypeToken \<Rightarrow> Parse p rest err)"

text \<open>
  \<^verbatim>\<open>ParseText\<close>: \<^verbatim>\<open>Cellbuf{width: 80}\<close> has the zero value in every other field, and
  the parser starts with an empty tag stack. The reader \<^verbatim>\<open>r\<close> is the token list and the
  error of the tokenizer made from it; \<open>builder\<close> is the text of the builder passed in,
  which the caller in \<^verbatim>\<open>main.go\<close> has never written to, so that it is empty there.
\<close>

definition newCellbuf :: Cellbuf where
  "newCellbuf = \<lparr>cells = [], width = 80, lmargin = 0, col = 0, row = 0, space = False,
                 fg = 0, bg = 0, calls = []\<rparr>"

definition ParseText ::
  "Token list \<Rightarrow> error \<Rightarrow> epub_Item list \<Rightarrow> gostring \<Rightarrow> panic + (gostring \<times> error option)" where
  "ParseText toks err its builder =
     (case Parse \<lparr>tagStack = [], doc = newCellbuf, items = its, sb = builder\<rparr> toks err of
        Inl e \<Rightarrow> Inl e
      | Inr (p, r) \<Rightarrow> Inr (sb p, r))"

text \<open>Tokens as the tokenizer builds them, for the examples.\<close>

definition textTok :: "string \<Rightarrow> Token" where
  "textTok s = \<lparr>Type = TextToken, DataAtom = atom_Other, Data = str s, Attr = []\<rparr>"

definition startTok :: "string \<Rightarrow> html_Attribute list \<Rightarrow> Token" where
  "startTok name as =
     \<lparr>Type = StartTagToken, DataAtom = Lookup (str name), Data = str name, Attr = as\<rparr>"

definition selfClosingTok :: "string \<Rightarrow> html_Attribute list \<Rightarrow> Token" where
  "selfClosingTok name as =
     \<lparr>Type = SelfClosingTagToken, DataAtom = Lookup (str name), Data = str name, Attr = as\<rparr>"

definition endTok :: "string \<Rightarrow> Token" where
  "endTok name = \<lparr>Type = EndTagToken, DataAtom = Lookup (str name), Data = str name, Attr = []\<rparr>"

subsection \<open>Notions for stating the properties\<close>

text \<open>
  The number of chunks of 1024 cells that the loop of \<^verbatim>\<open>SetCell\<close> appends to a slice of
  length \<open>n\<close> for the index \<open>i\<close>.
\<close>

definition chunks :: "nat \<Rightarrow> int \<Rightarrow> nat" where
  "chunks n i = (if i < int n then 0 else nat ((i - int n) div 1024) + 1)"

text \<open>
  The width, the left margin and the row are not negative. This holds of every cell
  buffer of a walk started by \<open>ParseText\<close>: there the width is 80, the left margin is
  never assigned and stays 0, and the row starts at 0 and only grows.
\<close>

definition Cellbuf_inv :: "Cellbuf \<Rightarrow> bool" where
  "Cellbuf_inv c = (0 \<le> width c \<and> 0 \<le> lmargin c \<and> 0 \<le> row c)"

text \<open>
  The column after the first statement of the loop body of \<^verbatim>\<open>AppendText\<close>,
  \<^verbatim>\<open>if c.col != c.lmargin && c.space { c.col++ }\<close>.
\<close>

definition wordCol :: "Cellbuf \<Rightarrow> int" where
  "wordCol c = (if col c \<noteq> lmargin c \<and> space c then col c + 1 else col c)"

text \<open>
  The text that a walk appends to the output, told from the tokens and the tag stack
  alone: the data of every text token whose innermost open element is not \<^verbatim>\<open>style\<close>,
  up to the first token of type \<^verbatim>\<open>ErrorToken\<close>; \<open>None\<close> when an end tag meets the empty
  stack.
\<close>

fun walkText :: "Atom list \<Rightarrow> Token list \<Rightarrow> gostring option" where
  "walkText st [] = Some []"
| "walkText st (token # rest) =
     (case Type token of
        ErrorToken \<Rightarrow> Some []
      | StartTagToken \<Rightarrow> walkText (st @ [DataAtom token]) rest
      | SelfClosingTagToken \<Rightarrow> walkText st rest
      | TextToken \<Rightarrow>
          (if st \<noteq> [] \<and> last st = atom_Style then walkText st rest
           else map_option (\<lambda>t. Data token @ t) (walkText st rest))
      | EndTagToken \<Rightarrow> (if st = [] then None else walkText (take (length st - 1) st) rest)
      | CommentToken \<Rightarrow> walkText st rest
      | DoctypeToken \<Rightarrow> walkText st rest)"

section \<open>Auxiliary facts\<close>

subsection \<open>The growth loop and the cell buffer\<close>

lemma grow_covers: "i < int (length (grow cs i))"
proof (induction cs i rule: grow.induct)
  case (1 cs i)
  show ?case
  proof (cases "i \<ge> int (length cs)")
    case True
    with 1 show ?thesis by (subst grow.simps) simp
  next
    case False
    then show ?thesis by (subst grow.simps) simp
  qed
qed

lemma grow_id: "i < int (length cs) \<Longrightarrow> grow cs i = cs"
  by (subst grow.simps) simp

lemma grow_step: "int (length cs) \<le> i \<Longrightarrow> grow cs i = grow (cs @ replicate 1024 zeroCell) i"
  by (subst grow.simps) simp

lemma grow_chunks: "grow cs i = cs @ replicate (1024 * chunks (length cs) i) zeroCell"
proof (induction cs i rule: grow.induct)
  case (1 cs i)
  show ?case
  proof (cases "i \<ge> int (length cs)")
    case True
    have c: "chunks (length cs) i = Suc (chunks (length cs + 1024) i)"
      using True by (auto simp: chunks_def) 
    have "grow cs i = grow (cs @ replicate 1024 zeroCell) i"
      using True by (rule grow_step)
    also have "\<dots> = (cs @ replicate 1024 zeroCell) @ replicate (1024 * chunks (length cs + 1024) i) zeroCell"
      using 1 [OF True] by simp
    also have "\<dots> = cs @ replicate (1024 * chunks (length cs) i) zeroCell"
      by (simp add: c replicate_add [symmetric])
    finally show ?thesis .
  next
    case False
    then show ?thesis by (simp add: grow_id chunks_def)
  qed
qed

lemma SetCell_Inr:
  "0 \<le> y * width c + x \<Longrightarrow>
   SetCell c x y ch f b =
     Inr (c\<lparr>cells := (grow (cells c) (y * width c + x))[nat (y * width c + x) := \<lparr>Ch = ch, Fg = f, Bg = b\<rparr>],
            calls := calls c @ [(x, y, ch)]\<rparr>)"
  by (simp add: SetCell_def Let_def)

lemma SetCell_Inl: "y * width c + x < 0 \<Longrightarrow> SetCell c x y ch f b = Inl IndexOutOfRange"
  by (simp add: SetCell_def Let_def)

lemma SetCell_frame:
  assumes "SetCell c x y ch f b = Inr c'"
  shows "calls c' = calls c @ [(x, y, ch)]" "col c' = col c" "row c' = row c" "width c' = width c"
    "lmargin c' = lmargin c" "space c' = space c" "fg c' = fg c" "bg c' = bg c"
  using assms by (auto simp: SetCell_def Let_def split: if_splits)

subsection \<open>Placing text\<close>

lemma AppendText_runes_frame:
  "AppendText_runes c w = Inr c' \<Longrightarrow>
     calls c' = calls c @ map (\<lambda>j. (col c + int j, row c, w ! j)) [0..<length w] \<and>
     col c' = col c + int (length w) \<and> row c' = row c \<and> width c' = width c \<and>
     lmargin c' = lmargin c \<and> space c' = space c \<and> fg c' = fg c \<and> bg c' = bg c"
proof (induction w arbitrary: c)
  case Nil
  then show ?case by simp
next
  case (Cons r rs)
  from Cons.prems obtain c1 where
    s: "SetCell c (col c) (row c) r (fg c) (bg c) = Inr c1" and
    rest: "AppendText_runes (c1\<lparr>col := col c1 + 1\<rparr>) rs = Inr c'"
    by (auto split: sum.splits)
  note f = SetCell_frame [OF s]
  have m: "map (\<lambda>j. (col c + int j, row c, (r # rs) ! j)) [0..<Suc (length rs)] =
        (col c, row c, r) # map (\<lambda>j. (col c + 1 + int j, row c, rs ! j)) [0..<length rs]"
    by (simp add: map_upt_Suc del: upt_Suc) 
  from Cons.IH [OF rest] f show ?case
    by (simp add: m del: upt_Suc)
qed

lemma AppendText_runes_total:
  "0 \<le> row c * width c + col c \<Longrightarrow> \<exists>c'. AppendText_runes c w = Inr c'"
proof (induction w arbitrary: c)
  case Nil
  then show ?case by simp
next
  case (Cons r rs)
  let ?c1 = "c\<lparr>cells := (grow (cells c) (row c * width c + col c))[nat (row c * width c + col c) := \<lparr>Ch = r, Fg = fg c, Bg = bg c\<rparr>],
            calls := calls c @ [(col c, row c, r)]\<rparr>"
  have s: "SetCell c (col c) (row c) r (fg c) (bg c) = Inr ?c1"
    using Cons.prems by (rule SetCell_Inr)
  have "\<exists>c'. AppendText_runes (?c1\<lparr>col := col ?c1 + 1\<rparr>) rs = Inr c'"
    by (rule Cons.IH) (use Cons.prems in simp)
  then show ?case by (simp add: s)
qed


lemma AppendText_word_frame:
  assumes "AppendText_word c w = Inr c'"
  shows "calls c' = calls c @
           map (\<lambda>j. ((if int (length w) > width c - wordCol c then lmargin c else wordCol c) + int j,
                      (if int (length w) > width c - wordCol c then row c + 1 else row c), w ! j))
               [0..<length w]"
    and "col c' = (if int (length w) > width c - wordCol c then lmargin c else wordCol c) + int (length w)"
    and "row c' = (if int (length w) > width c - wordCol c then row c + 1 else row c)"
    and "width c' = width c" and "lmargin c' = lmargin c" and "space c' = space c"
    and "fg c' = fg c" and "bg c' = bg c"
  using assms AppendText_runes_frame [of _ w c']
  by (auto simp: AppendText_word_def wordCol_def Let_def split: if_splits)

lemma AppendText_word_total:
  assumes "Cellbuf_inv c" and "lmargin c \<le> col c"
  shows "\<exists>c'. AppendText_word c w = Inr c'"
proof -
  have w: "0 \<le> width c" and l: "0 \<le> lmargin c" and r: "0 \<le> row c"
    using assms(1) by (simp_all add: Cellbuf_inv_def)
  have rw: "0 \<le> row c * width c" "0 \<le> (row c + 1) * width c"
    using w r by simp_all
  show ?thesis
    unfolding AppendText_word_def Let_def
    by (rule AppendText_runes_total) (use rw l assms(2) in \<open>auto simp: algebra_simps\<close>)
qed


lemma AppendText_words_frame:
  "AppendText_words c ws = Inr c' \<Longrightarrow>
     (\<exists>new. calls c' = calls c @ new) \<and> row c \<le> row c' \<and> width c' = width c \<and>
     lmargin c' = lmargin c \<and> space c' = space c \<and> fg c' = fg c \<and> bg c' = bg c"
proof (induction ws arbitrary: c)
  case Nil
  then show ?case by simp
next
  case (Cons w ws)
  from Cons.prems obtain c1 where
    s: "AppendText_word c w = Inr c1" and rest: "AppendText_words c1 ws = Inr c'"
    by (auto split: sum.splits)
  note f = AppendText_word_frame [OF s]
  from Cons.IH [OF rest] obtain new where n: "calls c' = calls c1 @ new" by blast
  have "\<exists>new. calls c' = calls c @ new"
    unfolding n f(1) by simp
  moreover have "row c \<le> row c1" using f(3) by simp
  ultimately show ?case using Cons.IH [OF rest] f by simp
qed

lemma AppendText_words_total:
  "Cellbuf_inv c \<Longrightarrow> lmargin c \<le> col c \<Longrightarrow> \<exists>c'. AppendText_words c ws = Inr c'"
proof (induction ws arbitrary: c)
  case Nil
  then show ?case by simp
next
  case (Cons w ws)
  from AppendText_word_total [OF Cons.prems] obtain c1 where
    s: "AppendText_word c w = Inr c1" by blast
  note f = AppendText_word_frame [OF s]
  have i: "Cellbuf_inv c1"
    using Cons.prems(1) f by (simp add: Cellbuf_inv_def)
  have m: "lmargin c1 \<le> col c1"
    using Cons.prems(2) f by (simp add: wordCol_def)
  from Cons.IH [OF i m] show ?case by (simp add: s)
qed

lemma AppendText_frame:
  "AppendText c s = Inr c' \<Longrightarrow>
     (\<exists>new. calls c' = calls c @ new) \<and> row c \<le> row c' \<and> width c' = width c \<and>
     lmargin c' = lmargin c \<and> space c' = space c \<and> fg c' = fg c \<and> bg c' = bg c"
  using AppendText_words_frame [of _ "ScanWords s" c']
  by (fastforce simp: AppendText_def split: if_splits)

lemma AppendText_total: "Cellbuf_inv c \<Longrightarrow> \<exists>c'. AppendText c s = Inr c'"
  unfolding AppendText_def
  by (auto intro!: AppendText_words_total simp: Cellbuf_inv_def)

lemma AppendText_inv: "AppendText c s = Inr c' \<Longrightarrow> Cellbuf_inv c \<Longrightarrow> Cellbuf_inv c'"
  using AppendText_frame [of c s c'] by (simp add: Cellbuf_inv_def)

subsection \<open>The handlers and the walk\<close>

lemma HandleText_cases:
  "HandleText p token = Inr p' \<Longrightarrow>
     tagStack p' = tagStack p \<and> items p' = items p \<and>
     sb p' = (if tagStack p \<noteq> [] \<and> last (tagStack p) = atom_Style then sb p else sb p @ Data token) \<and>
     width (doc p') = width (doc p) \<and> lmargin (doc p') = lmargin (doc p) \<and>
     space (doc p') = space (doc p) \<and> row (doc p) \<le> row (doc p')"
  using AppendText_frame [of "Style (doc p) (tagStack p)" "Data token"]
  by (auto simp: HandleText_def Style_def last_conv_nth split: if_splits sum.splits)

lemma HandleText_total: "Cellbuf_inv (doc p) \<Longrightarrow> \<exists>p'. HandleText p token = Inr p'"
  using AppendText_total [of "Style (doc p) (tagStack p)" "Data token"]
  by (auto simp: HandleText_def Style_def Cellbuf_inv_def)

lemma HandleStartTag_img_frame:
  "HandleStartTag_img p as = Inr p' \<Longrightarrow>
     tagStack p' = tagStack p \<and> items p' = items p \<and> sb p' = sb p \<and>
     width (doc p') = width (doc p) \<and> lmargin (doc p') = lmargin (doc p) \<and>
     space (doc p') = space (doc p) \<and> row (doc p) \<le> row (doc p')"
proof (induction as arbitrary: p)
  case Nil
  then show ?case by simp
next
  case (Cons a as)
  show ?case
  proof (cases "Lookup (Key a) = atom_Alt")
    case True
    with Cons.prems obtain d where
      a: "AppendText (doc p) (str ''Alt text: '' @ Val a) = Inr d" and
      r: "HandleStartTag_img (p\<lparr>doc := d\<lparr>row := row d + 1, col := lmargin d\<rparr>\<rparr>) as = Inr p'"
      by (auto split: sum.splits)
    from Cons.IH [OF r] AppendText_frame [OF a] show ?thesis by simp
  next
    case False
    with Cons.prems have "HandleStartTag_img p as = Inr p'" by simp
    from Cons.IH [OF this] show ?thesis .
  qed
qed

lemma HandleStartTag_img_total:
  "Cellbuf_inv (doc p) \<Longrightarrow> \<exists>p'. HandleStartTag_img p as = Inr p'"
proof (induction as arbitrary: p)
  case Nil
  then show ?case by simp
next
  case (Cons a as)
  show ?case
  proof (cases "Lookup (Key a) = atom_Alt")
    case True
    from AppendText_total [OF Cons.prems] obtain d where
      a: "AppendText (doc p) (str ''Alt text: '' @ Val a) = Inr d" by blast
    have "Cellbuf_inv (d\<lparr>row := row d + 1, col := lmargin d\<rparr>)"
      using AppendText_inv [OF a Cons.prems] by (simp add: Cellbuf_inv_def)
    then have "\<exists>p'. HandleStartTag_img (p\<lparr>doc := d\<lparr>row := row d + 1, col := lmargin d\<rparr>\<rparr>) as = Inr p'"
      by (intro Cons.IH) simp
    then show ?thesis using True a by simp
  next
    case False
    then show ?thesis using Cons.IH [OF Cons.prems] by simp
  qed
qed

lemma HandleStartTag_frame:
  assumes "HandleStartTag p token = Inr p'"
  shows "tagStack p' = tagStack p \<and> items p' = items p \<and> sb p' = sb p \<and>
     width (doc p') = width (doc p) \<and> lmargin (doc p') = lmargin (doc p) \<and>
     space (doc p') = space (doc p) \<and> row (doc p) \<le> row (doc p')"
proof (cases "DataAtom token")
  case atom_Img
  with assms have "HandleStartTag_img p (Attr token) = Inr p'"
    by (simp add: HandleStartTag_def)
  then show ?thesis by (rule HandleStartTag_img_frame)
next
  case atom_Hr
  with assms obtain d where
    a: "AppendText (doc p\<lparr>row := row (doc p) + 1, col := 0\<rparr>)
          (replicate (nat (width (doc p))) (of_char CHR ''-'')) = Inr d" and p': "p' = p\<lparr>doc := d\<rparr>"
    by (auto simp: HandleStartTag_def Let_def split: if_splits sum.splits)
  from AppendText_frame [OF a] show ?thesis by (simp add: p')
qed (use assms in \<open>auto simp: HandleStartTag_def Let_def\<close>)

lemma HandleStartTag_total:
  assumes "Cellbuf_inv (doc p)"
  shows "\<exists>p'. HandleStartTag p token = Inr p'"
proof (cases "DataAtom token")
  case atom_Img
  then show ?thesis
    using HandleStartTag_img_total [OF assms] by (simp add: HandleStartTag_def)
next
  case atom_Hr
  have "Cellbuf_inv (doc p\<lparr>row := row (doc p) + 1, col := 0\<rparr>)"
    using assms by (simp add: Cellbuf_inv_def)
  from AppendText_total [OF this] obtain d where
    "AppendText (doc p\<lparr>row := row (doc p) + 1, col := 0\<rparr>)
          (replicate (nat (width (doc p))) (of_char CHR ''-'')) = Inr d" by blast
  then show ?thesis
    using atom_Hr assms by (simp add: HandleStartTag_def Let_def Cellbuf_inv_def)
qed (simp_all add: HandleStartTag_def Let_def)

lemma Parse_walkText:
  "Parse p toks e = Inr (p', r) \<Longrightarrow>
     \<exists>t. walkText (tagStack p) toks = Some t \<and> sb p' = sb p @ t \<and>
         r = (if e = io_EOF then None else Some e)"
proof (induction toks arbitrary: p)
  case Nil
  then show ?case by auto
next
  case (Cons token rest)
  show ?case
  proof (cases "Type token")
    case ErrorToken
    with Cons.prems show ?thesis by auto
  next
    case TextToken
    with Cons.prems obtain p1 where
      h: "HandleText p token = Inr p1" and r: "Parse p1 rest e = Inr (p', r)"
      by (auto split: sum.splits)
    from Cons.IH [OF r] HandleText_cases [OF h] TextToken show ?thesis
      by auto
  next
    case StartTagToken
    with Cons.prems obtain p1 where
      h: "HandleStartTag (p\<lparr>tagStack := tagStack p @ [DataAtom token]\<rparr>) token = Inr p1" and
      r: "Parse p1 rest e = Inr (p', r)"
      by (auto split: sum.splits)
    from Cons.IH [OF r] HandleStartTag_frame [OF h] StartTagToken show ?thesis
      by auto
  next
    case SelfClosingTagToken
    with Cons.prems obtain p1 where
      h: "HandleStartTag p token = Inr p1" and r: "Parse p1 rest e = Inr (p', r)"
      by (auto split: sum.splits)
    from Cons.IH [OF r] HandleStartTag_frame [OF h] SelfClosingTagToken show ?thesis
      by auto
  next
    case EndTagToken
    with Cons.prems have
      n: "tagStack p \<noteq> []" and
      r: "Parse (p\<lparr>tagStack := take (length (tagStack p) - 1) (tagStack p)\<rparr>) rest e = Inr (p', r)"
      by (auto split: if_splits)
    from Cons.IH [OF r] n EndTagToken show ?thesis
      by auto
  next
    case CommentToken
    with Cons.prems Cons.IH [of p] show ?thesis by auto
  next
    case DoctypeToken
    with Cons.prems Cons.IH [of p] show ?thesis by auto
  qed
qed

lemma walkText_Text:
  "Type token = TextToken \<Longrightarrow>
     walkText st (token # rest) =
       (if st \<noteq> [] \<and> last st = atom_Style then walkText st rest
        else map_option (\<lambda>t. Data token @ t) (walkText st rest))"
  by simp

lemma walkText_Text_None:
  "Type token = TextToken \<Longrightarrow> (walkText st (token # rest) = None) = (walkText st rest = None)"
  by (simp only: walkText_Text split: if_splits) simp

lemma walkText_Start:
  "Type token = StartTagToken \<Longrightarrow> walkText st (token # rest) = walkText (st @ [DataAtom token]) rest"
  by simp

lemma walkText_SelfClosing:
  "Type token = SelfClosingTagToken \<Longrightarrow> walkText st (token # rest) = walkText st rest"
  by simp

lemma walkText_End:
  "Type token = EndTagToken \<Longrightarrow> st \<noteq> [] \<Longrightarrow>
     walkText st (token # rest) = walkText (take (length st - 1) st) rest"
  by simp

lemma Parse_step:
  assumes "Cellbuf_inv (doc p)" and "Type token \<noteq> ErrorToken"
    and "Type token = EndTagToken \<longrightarrow> tagStack p \<noteq> []"
  shows "\<exists>p1. Cellbuf_inv (doc p1) \<and> Parse p (token # rest) e = Parse p1 rest e \<and>
           (walkText (tagStack p) (token # rest) = None) = (walkText (tagStack p1) rest = None)"
proof (cases "Type token")
  case ErrorToken
  with assms show ?thesis by simp
next
  case TextToken
  from HandleText_total [OF assms(1)] obtain p1 where
    h: "HandleText p token = Inr p1" by blast
  note f = HandleText_cases [OF h]
  from f have ts: "tagStack p1 = tagStack p" by (rule conjunct1)
  have "Cellbuf_inv (doc p1)" using f assms(1) by (simp add: Cellbuf_inv_def)
  moreover have "Parse p (token # rest) e = Parse p1 rest e"
    using TextToken h by simp
  moreover have "(walkText (tagStack p) (token # rest) = None) = (walkText (tagStack p1) rest = None)"
    using TextToken by (simp only: ts walkText_Text_None)
  ultimately show ?thesis by (intro exI conjI)
next
  case StartTagToken
  have "Cellbuf_inv (doc (p\<lparr>tagStack := tagStack p @ [DataAtom token]\<rparr>))"
    using assms(1) by simp
  from HandleStartTag_total [OF this] obtain p1 where
    h: "HandleStartTag (p\<lparr>tagStack := tagStack p @ [DataAtom token]\<rparr>) token = Inr p1" by blast
  note f = HandleStartTag_frame [OF h]
  from f have ts: "tagStack p1 = tagStack p @ [DataAtom token]" by simp
  have "Cellbuf_inv (doc p1)" using f assms(1) by (simp add: Cellbuf_inv_def)
  moreover have "Parse p (token # rest) e = Parse p1 rest e"
    using StartTagToken h by simp
  moreover have "(walkText (tagStack p) (token # rest) = None) = (walkText (tagStack p1) rest = None)"
    using StartTagToken by (simp only: ts walkText_Start)
  ultimately show ?thesis by (intro exI conjI)
next
  case SelfClosingTagToken
  from HandleStartTag_total [OF assms(1)] obtain p1 where
    h: "HandleStartTag p token = Inr p1" by blast
  note f = HandleStartTag_frame [OF h]
  from f have ts: "tagStack p1 = tagStack p" by (rule conjunct1)
  have "Cellbuf_inv (doc p1)" using f assms(1) by (simp add: Cellbuf_inv_def)
  moreover have "Parse p (token # rest) e = Parse p1 rest e"
    using SelfClosingTagToken h by simp
  moreover have "(walkText (tagStack p) (token # rest) = None) = (walkText (tagStack p1) rest = None)"
    using SelfClosingTagToken by (simp only: ts walkText_SelfClosing)
  ultimately show ?thesis by (intro exI conjI)
next
  case EndTagToken
  let ?p1 = "p\<lparr>tagStack := take (length (tagStack p) - 1) (tagStack p)\<rparr>"
  have n: "tagStack p \<noteq> []" using assms(3) EndTagToken by simp
  have "Cellbuf_inv (doc ?p1)" using assms(1) by simp
  moreover have "Parse p (token # rest) e = Parse ?p1 rest e"
    using EndTagToken n by simp
  moreover have "(walkText (tagStack p) (token # rest) = None) = (walkText (tagStack ?p1) rest = None)"
    using EndTagToken n by (simp add: walkText_End del: walkText.simps)
  ultimately show ?thesis by (intro exI conjI)
next
  case CommentToken
  then have "Parse p (token # rest) e = Parse p rest e"
    and "walkText (tagStack p) (token # rest) = walkText (tagStack p) rest"
    by simp_all
  with assms(1) show ?thesis by (intro exI [of _ p]) (simp only: simp_thms)
next
  case DoctypeToken
  then have "Parse p (token # rest) e = Parse p rest e"
    and "walkText (tagStack p) (token # rest) = walkText (tagStack p) rest"
    by simp_all
  with assms(1) show ?thesis by (intro exI [of _ p]) (simp only: simp_thms)
qed

lemma Parse_total:
  "Cellbuf_inv (doc p) \<Longrightarrow>
     (walkText (tagStack p) toks = None \<longrightarrow> Parse p toks e = Inl SliceBoundsOutOfRange) \<and>
     (walkText (tagStack p) toks \<noteq> None \<longrightarrow>
        (\<exists>p'. Parse p toks e = Inr (p', if e = io_EOF then None else Some e)))"
proof (induction toks arbitrary: p)
  case Nil
  then show ?case by simp
next
  case (Cons token rest)
  show ?case
  proof (cases "Type token = ErrorToken")
    case True
    then show ?thesis by simp
  next
    case ne: False
    show ?thesis
    proof (cases "Type token = EndTagToken \<and> tagStack p = []")
      case True
      then show ?thesis by simp
    next
      case False
      then have "Type token = EndTagToken \<longrightarrow> tagStack p \<noteq> []" by blast
      from Parse_step [OF Cons.prems ne this, of rest e] obtain p1 where
        i: "Cellbuf_inv (doc p1)" and
        q: "Parse p (token # rest) e = Parse p1 rest e" and
        w: "(walkText (tagStack p) (token # rest) = None) = (walkText (tagStack p1) rest = None)"
        by (elim exE conjE)
      note IH = Cons.IH [OF i]
      show ?thesis
        unfolding q
      proof (intro conjI impI)
        assume "walkText (tagStack p) (token # rest) = None"
        then have "walkText (tagStack p1) rest = None" by (rule iffD1 [OF w])
        then show "Parse p1 rest e = Inl SliceBoundsOutOfRange"
          by (rule IH [THEN conjunct1, THEN mp])
      next
        assume "walkText (tagStack p) (token # rest) \<noteq> None"
        then have "walkText (tagStack p1) rest \<noteq> None"
          by (rule contrapos_nn) (rule iffD2 [OF w])
        then show "\<exists>p'. Parse p1 rest e = Inr (p', if e = io_EOF then None else Some e)"
          by (rule IH [THEN conjunct2, THEN mp])
      qed
    qed
  qed
qed


lemma Cellbuf_inv_new: "Cellbuf_inv newCellbuf"
  by (simp add: Cellbuf_inv_def newCellbuf_def)

lemma ParseText_eq:
  "ParseText toks e its b =
     (case walkText [] toks of
        None \<Rightarrow> Inl SliceBoundsOutOfRange
      | Some t \<Rightarrow> Inr (b @ t, if e = io_EOF then None else Some e))"
proof -
  let ?p = "\<lparr>tagStack = [], doc = newCellbuf, items = its, sb = b\<rparr>"
  have i: "Cellbuf_inv (doc ?p)" by (simp add: Cellbuf_inv_new)
  note t = Parse_total [OF i, of toks e]
  show ?thesis
  proof (cases "walkText [] toks")
    case None
    then have "Parse ?p toks e = Inl SliceBoundsOutOfRange"
      using t [THEN conjunct1] by simp
    with None show ?thesis by (simp add: ParseText_def)
  next
    case (Some t')
    then have "\<exists>p'. Parse ?p toks e = Inr (p', if e = io_EOF then None else Some e)"
      using t [THEN conjunct2] by simp
    then obtain p' where
      p: "Parse ?p toks e = Inr (p', if e = io_EOF then None else Some e)" ..
    from Parse_walkText [OF p] Some have "sb p' = b @ t'" by simp
    with p Some show ?thesis by (simp add: ParseText_def)
  qed
qed

lemma grow_least:
  "\<exists>k. grow cs i = cs @ replicate (1024 * k) zeroCell \<and>
       i < int (length cs) + 1024 * int k \<and>
       (0 < k \<longrightarrow> int (length cs) + 1024 * (int k - 1) \<le> i)"
proof (intro exI [of _ "chunks (length cs) i"] conjI)
  show "grow cs i = cs @ replicate (1024 * chunks (length cs) i) zeroCell"
    by (rule grow_chunks)
  show "i < int (length cs) + 1024 * int (chunks (length cs) i)"
    by (simp add: chunks_def) linarith
  show "0 < chunks (length cs) i \<longrightarrow> int (length cs) + 1024 * (int (chunks (length cs) i) - 1) \<le> i"
    by (simp add: chunks_def) linarith
qed

lemma Parse_frame:
  "Parse p toks e = Inr (p', r) \<Longrightarrow>
     width (doc p') = width (doc p) \<and> lmargin (doc p') = lmargin (doc p) \<and>
     space (doc p') = space (doc p) \<and> items p' = items p"
proof (induction toks arbitrary: p)
  case Nil
  then show ?case by auto
next
  case (Cons token rest)
  show ?case
  proof (cases "Type token")
    case ErrorToken
    with Cons.prems show ?thesis by auto
  next
    case TextToken
    with Cons.prems obtain p1 where
      h: "HandleText p token = Inr p1" and r: "Parse p1 rest e = Inr (p', r)"
      by (auto split: sum.splits)
    from Cons.IH [OF r] HandleText_cases [OF h] show ?thesis by simp
  next
    case StartTagToken
    with Cons.prems obtain p1 where
      h: "HandleStartTag (p\<lparr>tagStack := tagStack p @ [DataAtom token]\<rparr>) token = Inr p1" and
      r: "Parse p1 rest e = Inr (p', r)"
      by (auto split: sum.splits)
    from Cons.IH [OF r] HandleStartTag_frame [OF h] show ?thesis by simp
  next
    case SelfClosingTagToken
    with Cons.prems obtain p1 where
      h: "HandleStartTag p token = Inr p1" and r: "Parse p1 rest e = Inr (p', r)"
      by (auto split: sum.splits)
    from Cons.IH [OF r] HandleStartTag_frame [OF h] show ?thesis by simp
  next
    case EndTagToken
    with Cons.prems have
      r: "Parse (p\<lparr>tagStack := take (length (tagStack p) - 1) (tagStack p)\<rparr>) rest e = Inr (p', r)"
      by (auto split: if_splits)
    from Cons.IH [OF r] show ?thesis by simp
  next
    case CommentToken
    with Cons.prems Cons.IH [of p] show ?thesis by auto
  next
    case DoctypeToken
    with Cons.prems Cons.IH [of p] show ?thesis by auto
  qed
qed

lemma AppendText_word_range:
  assumes "AppendText_word c w = Inr c'" and "lmargin c = 0" and "0 \<le> col c"
    and "int (length w) \<le> width c"
  shows "\<exists>new. calls c' = calls c @ new \<and> (\<forall>q\<in>set new. 0 \<le> fst q \<and> fst q < width c)"
    and "0 \<le> col c'"
proof -
  note f = AppendText_word_frame [OF assms(1)]
  have w0: "0 \<le> wordCol c" using assms(3) by (simp add: wordCol_def)
  let ?base = "if int (length w) > width c - wordCol c then lmargin c else wordCol c"
  let ?new = "map (\<lambda>j. (?base + int j, (if int (length w) > width c - wordCol c then row c + 1 else row c), w ! j))
               [0..<length w]"
  have "\<forall>q\<in>set ?new. 0 \<le> fst q \<and> fst q < width c"
    using w0 assms(2,4) by auto
  with f(1) show "\<exists>new. calls c' = calls c @ new \<and> (\<forall>q\<in>set new. 0 \<le> fst q \<and> fst q < width c)"
    by blast
  show "0 \<le> col c'" using f(2) w0 assms(2) by simp
qed

lemma AppendText_words_range:
  "AppendText_words c ws = Inr c' \<Longrightarrow> lmargin c = 0 \<Longrightarrow> 0 \<le> col c \<Longrightarrow>
   \<forall>w\<in>set ws. int (length w) \<le> width c \<Longrightarrow>
   \<exists>new. calls c' = calls c @ new \<and> (\<forall>q\<in>set new. 0 \<le> fst q \<and> fst q < width c)"
proof (induction ws arbitrary: c)
  case Nil
  then show ?case by simp
next
  case (Cons w ws)
  from Cons.prems(1) obtain c1 where
    s: "AppendText_word c w = Inr c1" and rest: "AppendText_words c1 ws = Inr c'"
    by (auto split: sum.splits)
  note f = AppendText_word_frame [OF s]
  have len: "int (length w) \<le> width c" using Cons.prems(4) by simp
  from AppendText_word_range [OF s Cons.prems(2,3) len] obtain new1 where
    n1: "calls c1 = calls c @ new1" "\<forall>q\<in>set new1. 0 \<le> fst q \<and> fst q < width c" and
    c1: "0 \<le> col c1" by blast
  have "\<exists>new. calls c' = calls c1 @ new \<and> (\<forall>q\<in>set new. 0 \<le> fst q \<and> fst q < width c1)"
    using Cons.prems(2,4) f c1 by (intro Cons.IH [OF rest]) simp_all
  then obtain new2 where
    n2: "calls c' = calls c1 @ new2" "\<forall>q\<in>set new2. 0 \<le> fst q \<and> fst q < width c1" by blast
  have "calls c' = calls c @ (new1 @ new2)" using n1(1) n2(1) by simp
  moreover have "\<forall>q\<in>set (new1 @ new2). 0 \<le> fst q \<and> fst q < width c"
    using n1(2) n2(2) f(4) by auto
  ultimately show ?case by (intro exI conjI)
qed

lemma HandleStartTag_img_append:
  "HandleStartTag_img p (pre @ post) =
     (case HandleStartTag_img p pre of Inl e \<Rightarrow> Inl e | Inr p1 \<Rightarrow> HandleStartTag_img p1 post)"
  by (induction pre arbitrary: p) (auto split: sum.splits)

lemma and_or_absorb_nat: "(f::nat) AND (x OR f) = f"
  by (rule bit_eqI) (auto simp: bit_and_iff bit_or_iff)

subsection \<open>The style of a stack\<close>

lemma or_and_absorb_nat: "((a::nat) OR k) AND k = k"
  by (rule bit_eqI) (auto simp: bit_and_iff bit_or_iff)

lemma and_or_keep_nat: "(a::nat) AND k = k \<Longrightarrow> (a OR b) AND k = k"
proof -
  assume h: "a AND k = k"
  have "(a OR b) AND k = (a AND k) OR (b AND k)"
    by (rule bit_eqI) (auto simp: bit_and_iff bit_or_iff)
  also have "\<dots> = k OR (b AND k)" by (simp only: h)
  also have "\<dots> = k" by (rule bit_eqI) (auto simp: bit_and_iff bit_or_iff)
  finally show ?thesis .
qed

lemma Style_tag_or: "Style_tag f tag = f OR Style_tag ColorDefault tag"
  by (simp add: Style_tag_def ColorDefault_def)

lemma Style_snoc: "fg (Style c (tags @ [tag])) = fg (Style c tags) OR Style_tag ColorDefault tag"
  by (simp add: Style_def Style_tag_or [symmetric])

lemma Style_includes:
  "tag \<in> set tags \<Longrightarrow>
     fg (Style c tags) AND Style_tag ColorDefault tag = Style_tag ColorDefault tag"
proof (induction tags rule: rev_induct)
  case Nil
  then show ?case by simp
next
  case (snoc t ts)
  show ?case
  proof (cases "tag = t")
    case True
    then show ?thesis by (simp only: Style_snoc or_and_absorb_nat)
  next
    case False
    with snoc.prems have "tag \<in> set ts" by simp
    from snoc.IH [OF this] show ?thesis
      by (simp only: Style_snoc and_or_keep_nat)
  qed
qed

subsection \<open>Further facts for the claims\<close>

lemma AppendText_range:
  assumes "AppendText c s = Inr c'" and "lmargin c = 0"
    and "\<forall>w\<in>set (ScanWords s). int (length w) \<le> width c"
  shows "\<exists>new. calls c' = calls c @ new \<and> (\<forall>q\<in>set new. 0 \<le> fst q \<and> fst q < width c)"
proof (cases "byteLen s \<le> 0")
  case True
  with assms(1) have "c' = c" by (simp add: AppendText_def)
  then show ?thesis by simp
next
  case False
  let ?c = "if col c < lmargin c then c\<lparr>col := lmargin c\<rparr> else c"
  from False assms(1) have w: "AppendText_words ?c (ScanWords s) = Inr c'"
    by (simp add: AppendText_def)
  have "\<exists>new. calls c' = calls ?c @ new \<and> (\<forall>q\<in>set new. 0 \<le> fst q \<and> fst q < width ?c)"
    using assms(2,3) by (intro AppendText_words_range [OF w]) auto
  then show ?thesis by (auto split: if_splits)
qed

lemma walkText_no_text:
  "\<forall>token\<in>set toks. Type token \<noteq> TextToken \<Longrightarrow> walkText st toks = Some t \<Longrightarrow> t = []"
proof (induction toks arbitrary: st)
  case Nil
  then show ?case by simp
next
  case (Cons token rest)
  then show ?case by (cases "Type token") (auto split: if_splits)
qed

text \<open>The definitions that a run on a concrete input unfolds.\<close>

lemmas ev_defs = AppendText_def AppendText_word_def SetCell_def Let_def grow_chunks chunks_def
      newCellbuf_def str_def ScanWords_def isSpace_def fitsScanner_def byteLen_def RuneLen_def
      MaxScanTokenSize_def

section \<open>The claims\<close>

text \<open>
  Claim C1. The spec: when an end tag arrives while the element stack is empty, the walk
  fails with a StructuralError, stops the section and returns the text accumulated so
  far. The code has no check before the pop: for the tokens of the markup \<^verbatim>\<open>hi</p>\<close> the
  text \<^verbatim>\<open>hi\<close> is handled, then \<^verbatim>\<open>p.tagStack[:len(p.tagStack)-1]\<close> is evaluated with length 0
  and the program panics; \<open>ParseText\<close> returns neither an error nor the text.
\<close>

theorem C1_end_tag_on_empty_stack_panics:
  "ParseText [textTok ''hi'', endTok ''p''] io_EOF [] [] = Inl SliceBoundsOutOfRange"
  by (simp add: ParseText_eq textTok_def endTok_def)

text \<open>
  Claim C4. At the end of the stream (\<^verbatim>\<open>io.EOF\<close>) the walk returns no error; any other
  error of the tokenizer ends the walk and is the error returned. The tokens after a
  token of type \<^verbatim>\<open>ErrorToken\<close> are not read, and the text returned with an error is the
  text that the same tokens give when the stream ends with \<^verbatim>\<open>io.EOF\<close>.
\<close>

theorem C4_end_of_stream_and_tokenizer_error:
  "Parse p [] e = Inr (p, if e = io_EOF then None else Some e) \<and>
   (Type token = ErrorToken \<longrightarrow>
      Parse p (token # rest) e = Inr (p, if e = io_EOF then None else Some e)) \<and>
   (Parse p toks e = Inr (p', r) \<longrightarrow> r = (if e = io_EOF then None else Some e)) \<and>
   (ParseText toks e its b = Inr (out, r) \<longrightarrow>
      r = (if e = io_EOF then None else Some e) \<and> ParseText toks io_EOF its b = Inr (out, None))"
proof (intro conjI impI)
  assume "Parse p toks e = Inr (p', r)"
  from Parse_walkText [OF this] show "r = (if e = io_EOF then None else Some e)" by blast
next
  assume a: "ParseText toks e its b = Inr (out, r)"
  then show "r = (if e = io_EOF then None else Some e)"
    by (auto simp: ParseText_eq split: option.splits)
  from a show "ParseText toks io_EOF its b = Inr (out, None)"
    by (auto simp: ParseText_eq split: option.splits)
qed simp_all

theorem C4_witness:
  "Type \<lparr>Type = ErrorToken, DataAtom = atom_Other, Data = [], Attr = []\<rparr> = ErrorToken \<and>
   Parse \<lparr>tagStack = [], doc = newCellbuf, items = [], sb = str ''hi''\<rparr>
     [\<lparr>Type = ErrorToken, DataAtom = atom_Other, Data = [], Attr = []\<rparr>, textTok ''lost'']
     (OtherError ''unexpected EOF'') =
     Inr (\<lparr>tagStack = [], doc = newCellbuf, items = [], sb = str ''hi''\<rparr>,
          Some (OtherError ''unexpected EOF'')) \<and>
   ParseText [startTok ''p'' [], textTok ''Hello'', endTok ''p''] (OtherError ''unexpected EOF'') [] [] =
     Inr (str ''Hello'', Some (OtherError ''unexpected EOF'')) \<and>
   ParseText [startTok ''p'' [], textTok ''Hello'', endTok ''p''] io_EOF [] [] =
     Inr (str ''Hello'', None)"
  using C4_end_of_stream_and_tokenizer_error
    [where p = "\<lparr>tagStack = [], doc = newCellbuf, items = [], sb = str ''hi''\<rparr>"
       and e = "OtherError ''unexpected EOF''"
       and token = "\<lparr>Type = ErrorToken, DataAtom = atom_Other, Data = [], Attr = []\<rparr>"
       and rest = "[textTok ''lost'']"
       and toks = "[startTok ''p'' [], textTok ''Hello'', endTok ''p'']"
       and its = "[]" and b = "[]" and out = "str ''Hello''"
       and r = "Some (OtherError ''unexpected EOF'')"]
  by (simp add: ParseText_eq startTok_def textTok_def endTok_def Lookup_def str_def)




text \<open>
  Claim C8. The attribute that \<^verbatim>\<open>Style\<close> sets depends on the tag stack alone: it is
  \<^verbatim>\<open>ColorDefault\<close> for the empty stack and, for a stack with one more tag, the attribute
  of the stack below combined by bitwise or with what the tag stands for (bold for
  \<^verbatim>\<open>b\<close>, \<^verbatim>\<open>strong\<close>, \<^verbatim>\<open>em\<close>; a colour for \<^verbatim>\<open>i\<close>, \<^verbatim>\<open>title\<close> and the headings; nothing for the
  other atoms), whatever the buffer held before; \<^verbatim>\<open>Style\<close> changes no other field. So it
  is additive: the bits of every tag of the stack are in the result, and a tag removes
  none. For the stack of \<^verbatim>\<open><h1><b>text</b></h1>\<close> the attribute is
  \<^verbatim>\<open>ColorMagenta | AttrBold\<close>, which holds the colour of \<^verbatim>\<open>h1\<close> (in the nine low bits, where
  termbox keeps the colour) and the bold flag. \<^verbatim>\<open>HandleText\<close>, which calls \<^verbatim>\<open>Style\<close>, leaves
  the stack as it was.
\<close>

theorem C8_style_is_a_function_of_the_stack:
  "fg (Style c tags) = fg (Style c' tags) \<and>
   Style c tags = c\<lparr>fg := fg (Style c tags)\<rparr> \<and>
   fg (Style c []) = ColorDefault \<and>
   fg (Style c (tags @ [tag])) = fg (Style c tags) OR Style_tag ColorDefault tag \<and>
   Style_tag ColorDefault atom_B = AttrBold \<and>
   Style_tag ColorDefault atom_Strong = AttrBold \<and>
   Style_tag ColorDefault atom_Em = AttrBold \<and>
   Style_tag ColorDefault atom_I = ColorYellow \<and>
   Style_tag ColorDefault atom_Title = ColorRed \<and>
   Style_tag ColorDefault atom_H1 = ColorMagenta \<and>
   Style_tag ColorDefault atom_H2 = ColorBlue \<and>
   Style_tag ColorDefault atom_H3 = ColorCyan \<and>
   Style_tag ColorDefault atom_H4 = ColorCyan \<and>
   Style_tag ColorDefault atom_H5 = ColorCyan \<and>
   Style_tag ColorDefault atom_H6 = ColorCyan \<and>
   map (Style_tag ColorDefault)
     [atom_Alt, atom_Br, atom_Div, atom_Hr, atom_Img, atom_P, atom_Src, atom_Style, atom_Tr,
      atom_Other] = replicate 10 ColorDefault \<and>
   (t \<in> set tags \<longrightarrow>
      fg (Style c tags) AND Style_tag ColorDefault t = Style_tag ColorDefault t) \<and>
   Style_tag f tag = f OR Style_tag ColorDefault tag \<and>
   Style_tag f tag AND f = f \<and>
   fg (Style c [atom_H1, atom_B]) = ColorMagenta OR AttrBold \<and>
   fg (Style c [atom_H1, atom_B]) AND AttrBold = AttrBold \<and>
   fg (Style c [atom_H1, atom_B]) AND ColorMagenta = ColorMagenta \<and>
   fg (Style c [atom_H1, atom_B]) = 518 \<and>
   fg (Style c [atom_H1, atom_B]) AND 511 = ColorMagenta \<and>
   (HandleText p token = Inr p' \<longrightarrow> tagStack p' = tagStack p)"
proof (intro conjI impI)
  show "Style_tag f tag AND f = f"
    by (simp add: Style_tag_def ac_simps and_or_absorb_nat)
  show "fg (Style c (tags @ [tag])) = fg (Style c tags) OR Style_tag ColorDefault tag"
    by (rule Style_snoc)
  show "Style_tag f tag = f OR Style_tag ColorDefault tag"
    by (rule Style_tag_or)
  show "map (Style_tag ColorDefault)
     [atom_Alt, atom_Br, atom_Div, atom_Hr, atom_Img, atom_P, atom_Src, atom_Style, atom_Tr,
      atom_Other] = replicate 10 ColorDefault"
    by (simp add: Style_tag_def numeral_eq_Suc)
next
  assume "t \<in> set tags"
  then show "fg (Style c tags) AND Style_tag ColorDefault t = Style_tag ColorDefault t"
    by (rule Style_includes)
next
  assume "HandleText p token = Inr p'"
  from HandleText_cases [OF this] show "tagStack p' = tagStack p" by simp
qed (simp_all add: Style_def Style_tag_def ColorDefault_def ColorMagenta_def AttrBold_def)

theorem C8_witness:
  "atom_B \<in> set [atom_H1, atom_B] \<and>
   fg (Style newCellbuf [atom_H1, atom_B]) AND AttrBold = AttrBold \<and>
   fg (Style (newCellbuf\<lparr>fg := 7\<rparr>) [atom_H1, atom_B]) = 518 \<and>
   HandleText \<lparr>tagStack = [atom_H1, atom_B], doc = newCellbuf, items = [], sb = []\<rparr>
     \<lparr>Type = TextToken, DataAtom = atom_Other, Data = [], Attr = []\<rparr> =
     Inr \<lparr>tagStack = [atom_H1, atom_B], doc = newCellbuf\<lparr>fg := 518\<rparr>, items = [], sb = []\<rparr> \<and>
   tagStack \<lparr>tagStack = [atom_H1, atom_B], doc = newCellbuf\<lparr>fg := 518\<rparr>, items = [], sb = []\<rparr> =
   tagStack \<lparr>tagStack = [atom_H1, atom_B], doc = newCellbuf, items = [], sb = []\<rparr>"
  using C8_style_is_a_function_of_the_stack
    [where c = newCellbuf and tags = "[atom_H1, atom_B]" and t = atom_B
       and p = "\<lparr>tagStack = [atom_H1, atom_B], doc = newCellbuf, items = [], sb = []\<rparr>"
       and token = "\<lparr>Type = TextToken, DataAtom = atom_Other, Data = [], Attr = []\<rparr>"
       and p' = "\<lparr>tagStack = [atom_H1, atom_B], doc = newCellbuf\<lparr>fg := 518\<rparr>, items = [], sb = []\<rparr>"]
  by (simp add: HandleText_def Style_def Style_tag_def ColorDefault_def ColorMagenta_def AttrBold_def
      AppendText_def byteLen_def newCellbuf_def)

text \<open>
  Claim C2, as the spec states it, fails. The spec: a word placed after another word on
  the same line is placed one column further, for the space between them. The code
  advances the column only when the field \<^verbatim>\<open>space\<close> is set, and no statement sets it (the
  assignments are commented out in \<^verbatim>\<open>main.go\<close> and absent from \<^verbatim>\<open>epubParse.go\<close>). For the
  text \<^verbatim>\<open>a b\<close> on the buffer of \<open>ParseText\<close> the character \<^verbatim>\<open>a\<close> is placed at column 0 and
  \<^verbatim>\<open>b\<close> at column 1, not at column 2.
\<close>

theorem C2_counterexample:
  "map_sum id calls (AppendText newCellbuf (str ''a b'')) = Inr [(0, 0, 97), (1, 0, 98)] \<and>
   map_sum id calls (AppendText newCellbuf (str ''a b'')) \<noteq> Inr [(0, 0, 97), (2, 0, 98)]"
  by (simp add: ev_defs)

text \<open>
  Claim C2, amended. Before a word is placed, the column advances by exactly one if
  and only if the column differs from the left margin and the field \<^verbatim>\<open>space\<close> of the cell
  buffer is set (\<open>wordCol\<close>); a word that fits is then placed from that column on, in
  the same row. \<^verbatim>\<open>AppendText\<close> and the whole walk leave the field as it was, and
  \<open>ParseText\<close> creates the buffer with the field unset, so that in a walk no column is
  left free between two words.
\<close>

theorem C2_separator_column_only_with_the_space_flag:
  "(AppendText_word c w = Inr c' \<and> int (length w) \<le> width c - wordCol c \<longrightarrow>
      calls c' = calls c @ map (\<lambda>j. (wordCol c + int j, row c, w ! j)) [0..<length w] \<and>
      row c' = row c \<and> col c' = wordCol c + int (length w)) \<and>
   wordCol c = (if col c \<noteq> lmargin c \<and> space c then col c + 1 else col c) \<and>
   (AppendText d s = Inr d' \<longrightarrow> space d' = space d) \<and>
   (Parse p toks e = Inr (p', r) \<longrightarrow> space (doc p') = space (doc p)) \<and>
   space newCellbuf = False"
proof (intro conjI impI)
  assume a: "AppendText_word c w = Inr c' \<and> int (length w) \<le> width c - wordCol c"
  note f = AppendText_word_frame [OF a [THEN conjunct1]]
  from f(1) a show "calls c' = calls c @ map (\<lambda>j. (wordCol c + int j, row c, w ! j)) [0..<length w]"
    by simp
  from f(3) a show "row c' = row c" by simp
  from f(2) a show "col c' = wordCol c + int (length w)" by simp
next
  show "wordCol c = (if col c \<noteq> lmargin c \<and> space c then col c + 1 else col c)"
    by (simp add: wordCol_def)
next
  assume "AppendText d s = Inr d'"
  from AppendText_frame [OF this] show "space d' = space d" by simp
next
  assume "Parse p toks e = Inr (p', r)"
  from Parse_frame [OF this] show "space (doc p') = space (doc p)" by simp
next
  show "space newCellbuf = False" by (simp add: newCellbuf_def)
qed

theorem C2_witness:
  "AppendText_word (newCellbuf\<lparr>col := 1, space := True\<rparr>) (str ''b'') =
     Inr (newCellbuf\<lparr>cells := (replicate 1024 zeroCell)[2 := \<lparr>Ch = 98, Fg = 0, Bg = 0\<rparr>],
            col := 3, space := True, calls := [(2, 0, 98)]\<rparr>) \<and>
   int (length (str ''b'')) \<le> width (newCellbuf\<lparr>col := 1, space := True\<rparr>)
      - wordCol (newCellbuf\<lparr>col := 1, space := True\<rparr>) \<and>
   wordCol (newCellbuf\<lparr>col := 1, space := True\<rparr>) = 2 \<and>
   AppendText_word (newCellbuf\<lparr>col := 1\<rparr>) (str ''b'') =
     Inr (newCellbuf\<lparr>cells := (replicate 1024 zeroCell)[1 := \<lparr>Ch = 98, Fg = 0, Bg = 0\<rparr>],
            col := 2, calls := [(1, 0, 98)]\<rparr>) \<and>
   AppendText newCellbuf (str ''a b'') =
     Inr (newCellbuf\<lparr>cells := (replicate 1024 zeroCell)
             [0 := \<lparr>Ch = 97, Fg = 0, Bg = 0\<rparr>, 1 := \<lparr>Ch = 98, Fg = 0, Bg = 0\<rparr>],
           col := 2, calls := [(0, 0, 97), (1, 0, 98)]\<rparr>) \<and>
   Parse \<lparr>tagStack = [], doc = newCellbuf, items = [], sb = []\<rparr> [textTok ''a b''] io_EOF =
     Inr (\<lparr>tagStack = [],
           doc = newCellbuf\<lparr>cells := (replicate 1024 zeroCell)
             [0 := \<lparr>Ch = 97, Fg = 0, Bg = 0\<rparr>, 1 := \<lparr>Ch = 98, Fg = 0, Bg = 0\<rparr>],
           col := 2, calls := [(0, 0, 97), (1, 0, 98)]\<rparr>,
           items = [], sb = str ''a b''\<rparr>, None)"
  using C2_separator_column_only_with_the_space_flag
    [where c = "newCellbuf\<lparr>col := 1, space := True\<rparr>" and w = "str ''b''"
       and c' = "newCellbuf\<lparr>cells := (replicate 1024 zeroCell)[2 := \<lparr>Ch = 98, Fg = 0, Bg = 0\<rparr>],
            col := 3, space := True, calls := [(2, 0, 98)]\<rparr>"
       and d = newCellbuf and s = "str ''a b''"
       and d' = "newCellbuf\<lparr>cells := (replicate 1024 zeroCell)
             [0 := \<lparr>Ch = 97, Fg = 0, Bg = 0\<rparr>, 1 := \<lparr>Ch = 98, Fg = 0, Bg = 0\<rparr>],
           col := 2, calls := [(0, 0, 97), (1, 0, 98)]\<rparr>"
       and p = "\<lparr>tagStack = [], doc = newCellbuf, items = [], sb = []\<rparr>"
       and toks = "[textTok ''a b'']" and e = io_EOF and r = None
       and p' = "\<lparr>tagStack = [],
           doc = newCellbuf\<lparr>cells := (replicate 1024 zeroCell)
             [0 := \<lparr>Ch = 97, Fg = 0, Bg = 0\<rparr>, 1 := \<lparr>Ch = 98, Fg = 0, Bg = 0\<rparr>],
           col := 2, calls := [(0, 0, 97), (1, 0, 98)]\<rparr>,
           items = [], sb = str ''a b''\<rparr>"]
  by (simp add: ev_defs wordCol_def textTok_def HandleText_def Style_def Style_tag_def ColorDefault_def)

text \<open>
  Claim C3. The output of a walk that returns is the output before the walk followed by
  the data of the text tokens, verbatim and in order, whatever the cell buffer holds:
  for every parser state and token list it is the text \<open>walkText\<close> tells from the tokens
  and the stack alone, and for a list of text tokens outside a \<^verbatim>\<open>style\<close> element it is the
  concatenation of their data. For \<^verbatim>\<open><p>Hello world</p>\<close> the output is \<^verbatim>\<open>Hello world\<close>.
\<close>

theorem C3_output_is_the_text_tokens_verbatim:
  "(Parse p toks e = Inr (p', r) \<longrightarrow>
      (\<exists>t. walkText (tagStack p) toks = Some t \<and> sb p' = sb p @ t)) \<and>
   ((\<forall>token\<in>set toks. Type token = TextToken) \<and> \<not> (st \<noteq> [] \<and> last st = atom_Style) \<longrightarrow>
      walkText st toks = Some (concat (map Data toks))) \<and>
   (Parse p toks e = Inr (p', r) \<and> (\<forall>token\<in>set toks. Type token = TextToken) \<and>
    \<not> (tagStack p \<noteq> [] \<and> last (tagStack p) = atom_Style) \<longrightarrow>
      sb p' = sb p @ concat (map Data toks)) \<and>
   ParseText [startTok ''p'' [], textTok ''Hello world'', endTok ''p''] io_EOF its [] =
     Inr (str ''Hello world'', None)"
proof -
  have w: "walkText st toks = Some (concat (map Data toks))"
    if "\<forall>token\<in>set toks. Type token = TextToken" and "\<not> (st \<noteq> [] \<and> last st = atom_Style)"
    for st toks
    using that by (induction toks) auto
  have a: "\<exists>t. walkText (tagStack p) toks = Some t \<and> sb p' = sb p @ t"
    if "Parse p toks e = Inr (p', r)"
    using Parse_walkText [OF that] by blast
  have b: "sb p' = sb p @ concat (map Data toks)"
    if "Parse p toks e = Inr (p', r)" and "\<forall>token\<in>set toks. Type token = TextToken"
      and "\<not> (tagStack p \<noteq> [] \<and> last (tagStack p) = atom_Style)"
    using a [OF that(1)] w [OF that(2,3)] by auto
  have c: "ParseText [startTok ''p'' [], textTok ''Hello world'', endTok ''p''] io_EOF its [] =
     Inr (str ''Hello world'', None)"
    by (simp add: ParseText_eq startTok_def textTok_def endTok_def Lookup_def str_def)
  from a b c w show ?thesis by blast
qed

theorem C3_witness:
  "Parse \<lparr>tagStack = [atom_P], doc = newCellbuf\<lparr>row := 2, col := 2\<rparr>, items = [], sb = str ''x''\<rparr>
     [textTok ''a'', textTok '' b''] io_EOF =
     Inr (\<lparr>tagStack = [atom_P],
           doc = newCellbuf\<lparr>cells := (replicate 1024 zeroCell)
                  [162 := \<lparr>Ch = 97, Fg = 0, Bg = 0\<rparr>, 163 := \<lparr>Ch = 98, Fg = 0, Bg = 0\<rparr>],
                  col := 4, row := 2, calls := [(2, 2, 97), (3, 2, 98)]\<rparr>,
           items = [], sb = str ''xa b''\<rparr>, None) \<and>
   map Type [textTok ''a'', textTok '' b''] = [TextToken, TextToken] \<and>
   last [atom_P] \<noteq> atom_Style \<and>
   walkText [atom_P] [textTok ''a'', textTok '' b''] = Some (str ''a b'') \<and>
   str ''xa b'' = str ''x'' @ concat (map Data [textTok ''a'', textTok '' b''])"
  using C3_output_is_the_text_tokens_verbatim
    [where p = "\<lparr>tagStack = [atom_P], doc = newCellbuf\<lparr>row := 2, col := 2\<rparr>, items = [], sb = str ''x''\<rparr>"
       and toks = "[textTok ''a'', textTok '' b'']" and e = io_EOF and r = None and st = "[atom_P]"
       and p' = "\<lparr>tagStack = [atom_P],
           doc = newCellbuf\<lparr>cells := (replicate 1024 zeroCell)
                  [162 := \<lparr>Ch = 97, Fg = 0, Bg = 0\<rparr>, 163 := \<lparr>Ch = 98, Fg = 0, Bg = 0\<rparr>],
                  col := 4, row := 2, calls := [(2, 2, 97), (3, 2, 98)]\<rparr>,
           items = [], sb = str ''xa b''\<rparr>"]
  by (simp add: textTok_def HandleText_def Style_def Style_tag_def ColorDefault_def ev_defs)

text \<open>
  Claim C5. When no word of the string is longer than the width, every call of
  \<^verbatim>\<open>SetCell\<close> that \<^verbatim>\<open>AppendText\<close> makes has a column \<open>x\<close> with \<open>0 \<le> x < width\<close>. The left
  margin is 0 here, as it is in the program: no statement assigns \<^verbatim>\<open>lmargin\<close>, and
  \<^verbatim>\<open>Cellbuf{width: 80}\<close> sets it to 0. The calls made by \<^verbatim>\<open>AppendText\<close> are those after the
  calls recorded before it.
\<close>

theorem C5_columns_stay_within_the_width:
  "AppendText c s = Inr c' \<and> lmargin c = 0 \<and>
   (\<forall>w\<in>set (ScanWords s). int (length w) \<le> width c) \<longrightarrow>
     take (length (calls c)) (calls c') = calls c \<and>
     (\<forall>q\<in>set (drop (length (calls c)) (calls c')). 0 \<le> fst q \<and> fst q < width c)"
proof
  assume a: "AppendText c s = Inr c' \<and> lmargin c = 0 \<and>
   (\<forall>w\<in>set (ScanWords s). int (length w) \<le> width c)"
  then obtain new where
    "calls c' = calls c @ new" "\<forall>q\<in>set new. 0 \<le> fst q \<and> fst q < width c"
    using AppendText_range [of c s c'] by blast
  then show "take (length (calls c)) (calls c') = calls c \<and>
     (\<forall>q\<in>set (drop (length (calls c)) (calls c')). 0 \<le> fst q \<and> fst q < width c)"
    by simp
qed

theorem C5_witness:
  "AppendText (newCellbuf\<lparr>width := 2\<rparr>) (str ''ab cd'') =
     Inr (newCellbuf\<lparr>cells := (replicate 1024 zeroCell)
             [0 := \<lparr>Ch = 97, Fg = 0, Bg = 0\<rparr>, 1 := \<lparr>Ch = 98, Fg = 0, Bg = 0\<rparr>,
              2 := \<lparr>Ch = 99, Fg = 0, Bg = 0\<rparr>, 3 := \<lparr>Ch = 100, Fg = 0, Bg = 0\<rparr>],
           width := 2, col := 2, row := 1,
           calls := [(0, 0, 97), (1, 0, 98), (0, 1, 99), (1, 1, 100)]\<rparr>) \<and>
   lmargin (newCellbuf\<lparr>width := 2\<rparr>) = 0 \<and>
   ScanWords (str ''ab cd'') = [str ''ab'', str ''cd''] \<and>
   list_all (\<lambda>w. int (length w) \<le> width (newCellbuf\<lparr>width := 2\<rparr>)) (ScanWords (str ''ab cd'')) \<and>
   list_all (\<lambda>q. 0 \<le> fst q \<and> fst q < (2::int))
     [(0, 0 :: int, 97), (1, 0, 98), (0, 1, 99), (1, 1, 100 :: rune)]"
  using C5_columns_stay_within_the_width
    [where c = "newCellbuf\<lparr>width := 2\<rparr>" and s = "str ''ab cd''"
       and c' = "newCellbuf\<lparr>cells := (replicate 1024 zeroCell)
             [0 := \<lparr>Ch = 97, Fg = 0, Bg = 0\<rparr>, 1 := \<lparr>Ch = 98, Fg = 0, Bg = 0\<rparr>,
              2 := \<lparr>Ch = 99, Fg = 0, Bg = 0\<rparr>, 3 := \<lparr>Ch = 100, Fg = 0, Bg = 0\<rparr>],
           width := 2, col := 2, row := 1,
           calls := [(0, 0, 97), (1, 0, 98), (0, 1, 99), (1, 1, 100)]\<rparr>"]
  by (simp add: ev_defs)



text \<open>
  Claim C9. For an index \<open>y * width + x\<close> that is not negative \<^verbatim>\<open>SetCell\<close> returns: its
  loop, a total function, appends chunks of 1024 zero cells, the least number of them
  that puts the index below the length, and the cell is then written at the index.
  \<^verbatim>\<open>AppendText\<close> returns for every string on a cell buffer whose width, left margin and row
  are not negative, and leaves such a buffer; the buffer of \<open>ParseText\<close> is one, and no
  walk started by \<open>ParseText\<close> ends with an index out of range.
\<close>

theorem C9_SetCell_grows_and_AppendText_never_fails:
  "(0 \<le> y * width c + x \<longrightarrow>
      (\<exists>c'. SetCell c x y ch f b = Inr c' \<and>
            cells c' = (grow (cells c) (y * width c + x))
                         [nat (y * width c + x) := \<lparr>Ch = ch, Fg = f, Bg = b\<rparr>] \<and>
            y * width c + x < int (length (cells c')) \<and>
            cells c' ! nat (y * width c + x) = \<lparr>Ch = ch, Fg = f, Bg = b\<rparr>)) \<and>
   (\<exists>k. grow cs i = cs @ replicate (1024 * k) zeroCell \<and>
        i < int (length cs) + 1024 * int k \<and>
        (0 < k \<longrightarrow> int (length cs) + 1024 * (int k - 1) \<le> i)) \<and>
   (Cellbuf_inv d \<longrightarrow> (\<exists>d'. AppendText d s = Inr d' \<and> Cellbuf_inv d')) \<and>
   Cellbuf_inv newCellbuf \<and>
   ParseText toks e its bld \<noteq> Inl IndexOutOfRange"
proof (intro conjI impI)
  assume a: "0 \<le> y * width c + x"
  let ?i = "y * width c + x"
  let ?c' = "c\<lparr>cells := (grow (cells c) ?i)[nat ?i := \<lparr>Ch = ch, Fg = f, Bg = b\<rparr>],
               calls := calls c @ [(x, y, ch)]\<rparr>"
  have 1: "SetCell c x y ch f b = Inr ?c'" using a by (rule SetCell_Inr)
  have 2: "?i < int (length (cells ?c'))" using grow_covers [of ?i "cells c"] by simp
  then have 3: "cells ?c' ! nat ?i = \<lparr>Ch = ch, Fg = f, Bg = b\<rparr>" using a by simp
  from 1 2 3 show "\<exists>c'. SetCell c x y ch f b = Inr c' \<and>
            cells c' = (grow (cells c) ?i)[nat ?i := \<lparr>Ch = ch, Fg = f, Bg = b\<rparr>] \<and>
            ?i < int (length (cells c')) \<and>
            cells c' ! nat ?i = \<lparr>Ch = ch, Fg = f, Bg = b\<rparr>"
    by (intro exI [of _ ?c']) simp
next
  show "\<exists>k. grow cs i = cs @ replicate (1024 * k) zeroCell \<and>
        i < int (length cs) + 1024 * int k \<and>
        (0 < k \<longrightarrow> int (length cs) + 1024 * (int k - 1) \<le> i)"
    by (rule grow_least)
next
  assume i: "Cellbuf_inv d"
  from AppendText_total [OF i, of s] obtain d' where a: "AppendText d s = Inr d'" ..
  from AppendText_inv [OF a i] a show "\<exists>d'. AppendText d s = Inr d' \<and> Cellbuf_inv d'" by blast
next
  show "Cellbuf_inv newCellbuf" by (rule Cellbuf_inv_new)
next
  show "ParseText toks e its bld \<noteq> Inl IndexOutOfRange"
    by (simp add: ParseText_eq split: option.splits)
qed

theorem C9_witness:
  "0 \<le> 13 * width newCellbuf + 5 \<and>
   SetCell newCellbuf 5 13 97 0 0 =
     Inr (newCellbuf\<lparr>cells := (replicate 2048 zeroCell)[1045 := \<lparr>Ch = 97, Fg = 0, Bg = 0\<rparr>],
                     calls := [(5, 13, 97)]\<rparr>) \<and>
   grow [] 1045 = replicate 2048 zeroCell \<and>
   Cellbuf_inv newCellbuf \<and>
   AppendText newCellbuf (str ''a b'') =
     Inr (newCellbuf\<lparr>cells := (replicate 1024 zeroCell)
             [0 := \<lparr>Ch = 97, Fg = 0, Bg = 0\<rparr>, 1 := \<lparr>Ch = 98, Fg = 0, Bg = 0\<rparr>],
           col := 2, calls := [(0, 0, 97), (1, 0, 98)]\<rparr>)"
  using C9_SetCell_grows_and_AppendText_never_fails
    [where c = newCellbuf and x = 5 and y = 13 and ch = 97 and f = 0 and b = 0
       and cs = "[]" and i = 1045 and d = newCellbuf and s = "str ''a b''"]
  by (simp add: ev_defs Cellbuf_inv_def)

text \<open>
  Claim C10. \<^verbatim>\<open>HandleStartTag\<close> never changes the output. For an \<^verbatim>\<open>img\<close> tag it runs the
  loop over the attributes, and at an \<^verbatim>\<open>alt\<close> attribute with the value \<open>v\<close>, wherever it
  stands in the list, that loop gives the string \<^verbatim>\<open>Alt text: \<close>\<open>v\<close> to \<^verbatim>\<open>AppendText\<close>, then
  adds one to the row and sets the column to the left margin. A walk over tokens none
  of which is a text token returns the output it started with, and the walk over an
  image with \<^verbatim>\<open>alt="A cat"\<close> alone returns the empty text.
\<close>

theorem C10_image_alt_text_goes_to_the_grid_only:
  "(HandleStartTag p token = Inr p' \<longrightarrow> sb p' = sb p) \<and>
   (DataAtom token = atom_Img \<longrightarrow> HandleStartTag p token = HandleStartTag_img p (Attr token)) \<and>
   (Lookup (Key a) = atom_Alt \<longrightarrow>
      HandleStartTag_img p (pre @ a # post) =
        (case HandleStartTag_img p pre of
           Inl e \<Rightarrow> Inl e
         | Inr p1 \<Rightarrow>
             (case AppendText (doc p1) (str ''Alt text: '' @ Val a) of
                Inl e \<Rightarrow> Inl e
              | Inr d \<Rightarrow> HandleStartTag_img (p1\<lparr>doc := d\<lparr>row := row d + 1, col := lmargin d\<rparr>\<rparr>) post))) \<and>
   (Cellbuf_inv (doc q) \<and> DataAtom tok = atom_Img \<and> Attr tok = [\<lparr>Key = str ''alt'', Val = v\<rparr>] \<longrightarrow>
      (\<exists>d. AppendText (doc q) (str ''Alt text: '' @ v) = Inr d \<and>
           HandleStartTag q tok = Inr (q\<lparr>doc := d\<lparr>row := row d + 1, col := lmargin d\<rparr>\<rparr>))) \<and>
   (Parse p0 toks e = Inr (p0', r) \<and> (\<forall>t\<in>set toks. Type t \<noteq> TextToken) \<longrightarrow> sb p0' = sb p0) \<and>
   ParseText [selfClosingTok ''img'' [\<lparr>Key = str ''alt'', Val = str ''A cat''\<rparr>]] io_EOF its [] =
     Inr ([], None)"
proof (intro conjI impI)
  assume "HandleStartTag p token = Inr p'"
  from HandleStartTag_frame [OF this] show "sb p' = sb p" by simp
next
  assume "DataAtom token = atom_Img"
  then show "HandleStartTag p token = HandleStartTag_img p (Attr token)"
    by (simp add: HandleStartTag_def)
next
  assume "Lookup (Key a) = atom_Alt"
  then show "HandleStartTag_img p (pre @ a # post) =
        (case HandleStartTag_img p pre of
           Inl e \<Rightarrow> Inl e
         | Inr p1 \<Rightarrow>
             (case AppendText (doc p1) (str ''Alt text: '' @ Val a) of
                Inl e \<Rightarrow> Inl e
              | Inr d \<Rightarrow> HandleStartTag_img (p1\<lparr>doc := d\<lparr>row := row d + 1, col := lmargin d\<rparr>\<rparr>) post))"
    by (simp add: HandleStartTag_img_append split: sum.splits)
next
  assume a: "Cellbuf_inv (doc q) \<and> DataAtom tok = atom_Img \<and> Attr tok = [\<lparr>Key = str ''alt'', Val = v\<rparr>]"
  from AppendText_total [of "doc q" "str ''Alt text: '' @ v"] a obtain d where
    d: "AppendText (doc q) (str ''Alt text: '' @ v) = Inr d" by blast
  have "Lookup (str ''alt'') = atom_Alt" by (simp add: Lookup_def)
  with a d have "HandleStartTag q tok = Inr (q\<lparr>doc := d\<lparr>row := row d + 1, col := lmargin d\<rparr>\<rparr>)"
    by (simp add: HandleStartTag_def)
  with d show "\<exists>d. AppendText (doc q) (str ''Alt text: '' @ v) = Inr d \<and>
           HandleStartTag q tok = Inr (q\<lparr>doc := d\<lparr>row := row d + 1, col := lmargin d\<rparr>\<rparr>)"
    by blast
next
  assume a: "Parse p0 toks e = Inr (p0', r) \<and> (\<forall>t\<in>set toks. Type t \<noteq> TextToken)"
  from Parse_walkText [OF a [THEN conjunct1]] obtain t where
    t: "walkText (tagStack p0) toks = Some t" "sb p0' = sb p0 @ t" by blast
  from walkText_no_text [OF a [THEN conjunct2] t(1)] t(2) show "sb p0' = sb p0" by simp
next
  show "ParseText [selfClosingTok ''img'' [\<lparr>Key = str ''alt'', Val = str ''A cat''\<rparr>]] io_EOF its [] =
     Inr ([], None)"
    by (simp add: ParseText_eq selfClosingTok_def)
qed

theorem C10_witness:
  "HandleStartTag \<lparr>tagStack = [], doc = newCellbuf, items = [], sb = str ''x''\<rparr>
     (selfClosingTok ''img'' [\<lparr>Key = str ''src'', Val = str ''c.png''\<rparr>,
                               \<lparr>Key = str ''alt'', Val = str ''A cat''\<rparr>]) =
     Inr \<lparr>tagStack = [],
          doc = newCellbuf\<lparr>cells := (replicate 1024 zeroCell)
                  [0 := \<lparr>Ch = 65, Fg = 0, Bg = 0\<rparr>, 1 := \<lparr>Ch = 108, Fg = 0, Bg = 0\<rparr>,
                   2 := \<lparr>Ch = 116, Fg = 0, Bg = 0\<rparr>, 3 := \<lparr>Ch = 116, Fg = 0, Bg = 0\<rparr>,
                   4 := \<lparr>Ch = 101, Fg = 0, Bg = 0\<rparr>, 5 := \<lparr>Ch = 120, Fg = 0, Bg = 0\<rparr>,
                   6 := \<lparr>Ch = 116, Fg = 0, Bg = 0\<rparr>, 7 := \<lparr>Ch = 58, Fg = 0, Bg = 0\<rparr>,
                   8 := \<lparr>Ch = 65, Fg = 0, Bg = 0\<rparr>, 9 := \<lparr>Ch = 99, Fg = 0, Bg = 0\<rparr>,
                   10 := \<lparr>Ch = 97, Fg = 0, Bg = 0\<rparr>, 11 := \<lparr>Ch = 116, Fg = 0, Bg = 0\<rparr>],
                 col := 0, row := 1,
                 calls := [(0, 0, 65), (1, 0, 108), (2, 0, 116), (3, 0, 116), (4, 0, 101),
                           (5, 0, 120), (6, 0, 116), (7, 0, 58), (8, 0, 65), (9, 0, 99),
                           (10, 0, 97), (11, 0, 116)]\<rparr>,
          items = [], sb = str ''x''\<rparr> \<and>
   DataAtom (selfClosingTok ''img'' [\<lparr>Key = str ''alt'', Val = str ''A cat''\<rparr>]) = atom_Img \<and>
   Lookup (Key \<lparr>Key = str ''alt'', Val = str ''A cat''\<rparr>) = atom_Alt \<and>
   Cellbuf_inv (doc \<lparr>tagStack = [], doc = newCellbuf, items = [], sb = str ''x''\<rparr>) \<and>
   Parse \<lparr>tagStack = [], doc = newCellbuf, items = [], sb = str ''x''\<rparr>
     [selfClosingTok ''br'' []] io_EOF =
     Inr (\<lparr>tagStack = [], doc = newCellbuf\<lparr>col := 0, row := 1\<rparr>, items = [], sb = str ''x''\<rparr>, None) \<and>
   map Type [selfClosingTok ''br'' []] = [SelfClosingTagToken]"
  using C10_image_alt_text_goes_to_the_grid_only
    [where p = "\<lparr>tagStack = [], doc = newCellbuf, items = [], sb = str ''x''\<rparr>"
       and token = "selfClosingTok ''img'' [\<lparr>Key = str ''src'', Val = str ''c.png''\<rparr>,
                               \<lparr>Key = str ''alt'', Val = str ''A cat''\<rparr>]"
       and p' = "\<lparr>tagStack = [],
          doc = newCellbuf\<lparr>cells := (replicate 1024 zeroCell)
                  [0 := \<lparr>Ch = 65, Fg = 0, Bg = 0\<rparr>, 1 := \<lparr>Ch = 108, Fg = 0, Bg = 0\<rparr>,
                   2 := \<lparr>Ch = 116, Fg = 0, Bg = 0\<rparr>, 3 := \<lparr>Ch = 116, Fg = 0, Bg = 0\<rparr>,
                   4 := \<lparr>Ch = 101, Fg = 0, Bg = 0\<rparr>, 5 := \<lparr>Ch = 120, Fg = 0, Bg = 0\<rparr>,
                   6 := \<lparr>Ch = 116, Fg = 0, Bg = 0\<rparr>, 7 := \<lparr>Ch = 58, Fg = 0, Bg = 0\<rparr>,
                   8 := \<lparr>Ch = 65, Fg = 0, Bg = 0\<rparr>, 9 := \<lparr>Ch = 99, Fg = 0, Bg = 0\<rparr>,
                   10 := \<lparr>Ch = 97, Fg = 0, Bg = 0\<rparr>, 11 := \<lparr>Ch = 116, Fg = 0, Bg = 0\<rparr>],
                 col := 0, row := 1,
                 calls := [(0, 0, 65), (1, 0, 108), (2, 0, 116), (3, 0, 116), (4, 0, 101),
                           (5, 0, 120), (6, 0, 116), (7, 0, 58), (8, 0, 65), (9, 0, 99),
                           (10, 0, 97), (11, 0, 116)]\<rparr>,
          items = [], sb = str ''x''\<rparr>"
       and a = "\<lparr>Key = str ''alt'', Val = str ''A cat''\<rparr>"
       and pre = "[\<lparr>Key = str ''src'', Val = str ''c.png''\<rparr>]" and post = "[]"
       and q = "\<lparr>tagStack = [], doc = newCellbuf, items = [], sb = str ''x''\<rparr>"
       and tok = "selfClosingTok ''img'' [\<lparr>Key = str ''alt'', Val = str ''A cat''\<rparr>]"
       and v = "str ''A cat''"
       and p0 = "\<lparr>tagStack = [], doc = newCellbuf, items = [], sb = str ''x''\<rparr>"
       and toks = "[selfClosingTok ''br'' []]" and e = io_EOF and r = None
       and p0' = "\<lparr>tagStack = [], doc = newCellbuf\<lparr>col := 0, row := 1\<rparr>, items = [], sb = str ''x''\<rparr>"]
  by (simp add: selfClosingTok_def HandleStartTag_def Lookup_def Cellbuf_inv_def ev_defs)

end
